theory Spec2Isabelle
  imports Main "HOL-Library.Word" "HOL-Library.Sublist"
begin

unbundle bit_operations_syntax

section \<open>The notification decoder of esp32-smartcube.ino\<close>

text \<open>
  The sketch decodes the 20-byte notifications of a Bluetooth cube in one function,
  \<open>notifyCallback\<close>, with the helper \<open>getNibble\<close> and the two constant tables
  \<open>decryptionKey\<close> and \<open>solution\<close>. The callback works on the caller's buffer
  \<open>pData\<close> in place, writes to the serial port and pulses a relay pin. Here the
  buffer is a list of bytes whose length is the number of bytes supplied, the serial and
  pin effects are a list of events in the order the code produces them, and an access
  outside the buffer or outside a table (undefined behaviour in C++) ends the run with a
  fault that names the offending index.
\<close>

subsection \<open>Constants (lines 26-30)\<close>

type_synonym u8 = "8 word"

definition decryptionKey :: "u8 list" where
  "decryptionKey =
     [176, 81, 104, 224, 86, 137, 237, 119, 38, 26, 193, 161, 210, 126, 150, 81, 93, 13,
      236, 249, 89, 235, 88, 24, 113, 81, 214, 131, 130, 199, 2, 169, 39, 165, 171, 41]"

definition relayPin :: nat where
  "relayPin = 33"

definition solution :: "u8 list" where
  "solution =
     [0x12, 0x34, 0x56, 0x78, 0x33, 0x33, 0x33, 0x33,
      0x12, 0x34, 0x56, 0x78, 0x9a, 0xbc, 0x00, 0x00]"

definition faceNames :: "string list" where
  "faceNames = [''Front'', ''Bottom'', ''Right'', ''Top'', ''Left'', ''Back'']"

subsection \<open>Faults and effects\<close>

datatype fault =
    BufferOverrun int   \<comment> \<open>\<open>pData[i]\<close> with \<open>i\<close> outside the supplied bytes\<close>
  | KeyOverrun nat      \<comment> \<open>\<open>decryptionKey[k]\<close> with \<open>k\<close> outside the table\<close>
  | FaceNameOverrun int \<comment> \<open>\<open>faceNames[k]\<close> with \<open>k\<close> outside the six names\<close>

datatype level = LOW | HIGH

datatype event =
    Print string            \<comment> \<open>\<open>Serial.print\<close> of a text\<close>
  | PrintHex u8             \<comment> \<open>\<open>Serial.print(b, HEX)\<close>\<close>
  | Println string          \<comment> \<open>\<open>Serial.println\<close>\<close>
  | DigitalWrite nat level  \<comment> \<open>\<open>digitalWrite(pin, level)\<close>\<close>
  | Delay nat               \<comment> \<open>\<open>delay(ms)\<close>\<close>

record run =
  buf :: "u8 list"         \<comment> \<open>\<open>pData\<close> when the callback ends\<close>
  trace :: "event list"    \<comment> \<open>the effects, oldest first\<close>
  halt :: "fault option"   \<comment> \<open>\<open>None\<close>: the callback ran to its end\<close>

subsection \<open>Integer division of C++ on \<open>int\<close> (truncating)\<close>

definition c_quot :: "int \<Rightarrow> int \<Rightarrow> int" where
  "c_quot a b = (if (a < 0) = (b < 0) then \<bar>a\<bar> div \<bar>b\<bar> else - (\<bar>a\<bar> div \<bar>b\<bar>))"

definition c_rem :: "int \<Rightarrow> int \<Rightarrow> int" where
  "c_rem a b = a - b * c_quot a b"

subsection \<open>Reading the buffer; \<open>getNibble\<close> (lines 55-60)\<close>

definition rd :: "u8 list \<Rightarrow> int \<Rightarrow> fault + u8" where
  "rd val i = (if 0 \<le> i \<and> i < int (length val) then Inr (val ! nat i) else Inl (BufferOverrun i))"

definition getNibble :: "u8 list \<Rightarrow> int \<Rightarrow> fault + u8" where
  "getNibble val i =
     (if c_rem i 2 = 1
      then (case rd val (c_quot i 2) of Inl e \<Rightarrow> Inl e | Inr b \<Rightarrow> Inr (b mod 16))
      else (case rd val (c_quot i 2) of Inl e \<Rightarrow> Inl e | Inr b \<Rightarrow> Inr (b div 16)))"

subsection \<open>De-obfuscation (lines 116-129)\<close>

text \<open>
  \<open>pData[i] += (decryptionKey[offset1 + i] + decryptionKey[offset2 + i])\<close>: the three
  bytes are promoted to \<open>int\<close>, added there, and the sum is stored as a byte.
\<close>

definition add_assign :: "u8 \<Rightarrow> u8 \<Rightarrow> u8 \<Rightarrow> u8" where
  "add_assign p k1 k2 = word_of_int (uint p + (uint k1 + uint k2))"

function decrypt_loop :: "nat \<Rightarrow> nat \<Rightarrow> nat \<Rightarrow> u8 list \<Rightarrow> u8 list \<times> fault option" where
  "decrypt_loop offset1 offset2 i pData =
     (if i < 20 then
        (if \<not> offset1 + i < length decryptionKey then (pData, Some (KeyOverrun (offset1 + i)))
         else if \<not> offset2 + i < length decryptionKey then (pData, Some (KeyOverrun (offset2 + i)))
         else if \<not> i < length pData then (pData, Some (BufferOverrun (int i)))
         else decrypt_loop offset1 offset2 (i + 1)
                (pData[i := add_assign (pData ! i)
                               (decryptionKey ! (offset1 + i)) (decryptionKey ! (offset2 + i))]))
      else (pData, None))"
  by pat_completeness auto
termination
  by (relation "measure (\<lambda>(offset1, offset2, i, pData). 20 - i)") auto

declare decrypt_loop.simps [simp del]

definition isEncrypted :: "u8 list \<Rightarrow> fault + bool" where
  "isEncrypted pData = (case rd pData 18 of Inl e \<Rightarrow> Inl e | Inr b \<Rightarrow> Inr (b = 0xA7))"

definition decryptData :: "u8 list \<Rightarrow> u8 list \<times> fault option" where
  "decryptData pData =
     (case isEncrypted pData of
        Inl e \<Rightarrow> (pData, Some e)
      | Inr enc \<Rightarrow>
          if enc then
            (case getNibble pData 38 of
               Inl e \<Rightarrow> (pData, Some e)
             | Inr offset1 \<Rightarrow>
                 (case getNibble pData 39 of
                    Inl e \<Rightarrow> (pData, Some e)
                  | Inr offset2 \<Rightarrow> decrypt_loop (unat offset1) (unat offset2) 0 pData))
          else (pData, None))"

subsection \<open>Printing the cube state (lines 132-137)\<close>

function print_state_loop :: "nat \<Rightarrow> u8 list \<Rightarrow> event list \<times> fault option" where
  "print_state_loop i pData =
     (if i < 16 then
        (case rd pData (int i) of
           Inl e \<Rightarrow> ([], Some e)
         | Inr b \<Rightarrow>
             (case print_state_loop (i + 1) pData of
                (evs, h) \<Rightarrow> (PrintHex b # Print '' '' # evs, h)))
      else ([], None))"
  by pat_completeness auto
termination
  by (relation "measure (\<lambda>(i, pData). 16 - i)") auto

declare print_state_loop.simps [simp del]

definition printCurrentState :: "u8 list \<Rightarrow> event list \<times> fault option" where
  "printCurrentState pData =
     (case print_state_loop 0 pData of
        (evs, Some e) \<Rightarrow> (Print ''Current State: '' # evs, Some e)
      | (evs, None) \<Rightarrow> (Print ''Current State: '' # evs @ [Println ''''], None))"

subsection \<open>Printing the last move (lines 140-148)\<close>

definition printLastMove :: "u8 list \<Rightarrow> event list \<times> fault option" where
  "printLastMove pData =
     (case getNibble pData 32 of
        Inl e \<Rightarrow> ([], Some e)
      | Inr lastMoveFace \<Rightarrow>
          (case getNibble pData 33 of
             Inl e \<Rightarrow> ([], Some e)
           | Inr lastMoveDirection \<Rightarrow>
               (if 0 \<le> uint lastMoveFace - 1 \<and> uint lastMoveFace - 1 < int (length faceNames)
                then ([Print ''Last Move: '',
                       Print (faceNames ! nat (uint lastMoveFace - 1)),
                       Print (if uint lastMoveDirection = 1 then '' Face Clockwise''
                              else '' Face Anti-Clockwise''),
                       Println '''',
                       Println ''----''], None)
                else ([Print ''Last Move: ''], Some (FaceNameOverrun (uint lastMoveFace - 1))))))"

subsection \<open>The solved test and the relay (lines 150-154)\<close>

definition checkSolved :: "u8 list \<Rightarrow> event list \<times> fault option" where
  "checkSolved pData =
     (if length pData < 16 then ([], Some (BufferOverrun (int (length pData))))
      else if take 16 pData = solution
           then ([DigitalWrite relayPin HIGH, Delay 100, DigitalWrite relayPin LOW], None)
           else ([], None))"

subsection \<open>\<open>notifyCallback\<close> (lines 107-156)\<close>

definition notifyCallback :: "u8 list \<Rightarrow> run" where
  "notifyCallback pData =
     (case decryptData pData of
        (pData', Some e) \<Rightarrow> \<lparr>buf = pData', trace = [], halt = Some e\<rparr>
      | (pData', None) \<Rightarrow>
          (case printCurrentState pData' of
             (t1, Some e) \<Rightarrow> \<lparr>buf = pData', trace = t1, halt = Some e\<rparr>
           | (t1, None) \<Rightarrow>
               (case printLastMove pData' of
                  (t2, Some e) \<Rightarrow> \<lparr>buf = pData', trace = t1 @ t2, halt = Some e\<rparr>
                | (t2, None) \<Rightarrow>
                    (case checkSolved pData' of
                       (t3, h) \<Rightarrow> \<lparr>buf = pData', trace = t1 @ t2 @ t3, halt = h\<rparr>))))"

subsection \<open>The payloads quoted in the source (lines 110-112)\<close>

text \<open>
  The comment at the head of \<open>notifyCallback\<close> quotes three notifications of a solved
  cube: one in the plain format and two in the obfuscated one.
\<close>

definition plain_example :: "u8 list" where
  "plain_example =
     [0x12, 0x34, 0x56, 0x78, 0x33, 0x33, 0x33, 0x33, 0x12, 0x34,
      0x56, 0x78, 0x9a, 0xbc, 0x00, 0x00, 0x41, 0x41, 0x41, 0x41]"

definition encrypted_example :: "u8 list" where
  "encrypted_example =
     [0x70, 0x6f, 0x69, 0x36, 0xb1, 0xed, 0xd1, 0xb5, 0xe0, 0x02,
      0x64, 0xd0, 0x99, 0xa4, 0xe8, 0xa1, 0x9d, 0x3e, 0xa7, 0xf1]"

definition encrypted_example2 :: "u8 list" where
  "encrypted_example2 =
     [0xd9, 0xf6, 0x77, 0x72, 0xc3, 0xe9, 0xa5, 0xea, 0x6e, 0x84,
      0x44, 0x7a, 0xbb, 0x52, 0x71, 0x56, 0xf9, 0xdc, 0xa7, 0x05]"

subsection \<open>The forward transform\<close>

text \<open>
  Modelled from the spec: the forward additive transform, which runs in the cube and is
  not part of the sketch. The specification describes the obfuscation as additive with
  the decoder adding \<open>key[offset1 + i] + key[offset2 + i]\<close> to undo it, so the forward
  direction adds the additive inverse of that sum modulo 256 to each of the first 18
  bytes, sets the marker byte 18 to \<open>0xA7\<close> and packs the two offsets into the nibbles
  of byte 19. The argument \<open>plain\<close> holds the 16 bytes of the piece state followed by
  bytes 16 and 17.
\<close>

definition obfuscate :: "nat \<Rightarrow> nat \<Rightarrow> u8 list \<Rightarrow> u8 list" where
  "obfuscate offset1 offset2 plain =
     map (\<lambda>i. plain ! i + - (decryptionKey ! (offset1 + i) + decryptionKey ! (offset2 + i)))
       [0..<18]
     @ [0xA7, word_of_nat (offset1 * 16 + offset2)]"

section \<open>Closed forms of the stages\<close>

lemma length_decryptionKey: "length decryptionKey = 36"
  by (simp add: decryptionKey_def)

lemma length_solution: "length solution = 16"
  by (simp add: solution_def)

lemma rd_in_range: "i < length val \<Longrightarrow> rd val (int i) = Inr (val ! i)"
  by (simp add: rd_def)

lemma add_assign_plus: "add_assign p k1 k2 = p + k1 + k2"
  by (simp add: add_assign_def add.assoc)

lemma unat_add_assign: "unat (add_assign p k1 k2) = (unat p + unat k1 + unat k2) mod 256"
  by (simp add: add_assign_plus unat_word_ariths mod_simps)

lemma getNibble_even:
  "n < length val \<Longrightarrow> getNibble val (2 * int n) = Inr (val ! n div 16)"
  by (simp add: getNibble_def c_rem_def c_quot_def rd_def)

lemma getNibble_odd:
  "n < length val \<Longrightarrow> getNibble val (2 * int n + 1) = Inr (val ! n mod 16)"
  by (simp add: getNibble_def c_rem_def c_quot_def rd_def)

lemma nibble_hi_less: "unat ((b::u8) div 16) < 16"
proof -
  have "unat b < 256" using unsigned_less [of b] by simp
  then show ?thesis by (simp add: unat_div)
qed

lemma nibble_lo_less: "unat ((b::u8) mod 16) < 16"
  by (simp add: unat_mod)

lemma decrypt_loop_closed:
  assumes "offset1 \<le> 16" "offset2 \<le> 16" "20 \<le> length pData"
  shows "decrypt_loop offset1 offset2 i pData =
          (map (\<lambda>j. if i \<le> j \<and> j < 20
                     then add_assign (pData ! j) (decryptionKey ! (offset1 + j))
                            (decryptionKey ! (offset2 + j))
                     else pData ! j) [0..<length pData], None)"
  using assms
proof (induction offset1 offset2 i pData rule: decrypt_loop.induct)
  case (1 offset1 offset2 i pData)
  show ?case
  proof (cases "i < 20")
    case True
    with "1.prems" have inb: "offset1 + i < length decryptionKey"
      "offset2 + i < length decryptionKey" "i < length pData"
      by (simp_all add: length_decryptionKey)
    let ?p' = "pData[i := add_assign (pData ! i) (decryptionKey ! (offset1 + i))
                 (decryptionKey ! (offset2 + i))]"
    have IH: "decrypt_loop offset1 offset2 (i + 1) ?p' =
          (map (\<lambda>j. if i + 1 \<le> j \<and> j < 20
                     then add_assign (?p' ! j) (decryptionKey ! (offset1 + j))
                            (decryptionKey ! (offset2 + j))
                     else ?p' ! j) [0..<length ?p'], None)"
      using "1.IH" [OF True] inb "1.prems" by simp
    have "decrypt_loop offset1 offset2 i pData = decrypt_loop offset1 offset2 (i + 1) ?p'"
      using True inb by (subst decrypt_loop.simps) simp
    also have "\<dots> = (map (\<lambda>j. if i \<le> j \<and> j < 20
                     then add_assign (pData ! j) (decryptionKey ! (offset1 + j))
                            (decryptionKey ! (offset2 + j))
                     else pData ! j) [0..<length pData], None)"
      unfolding IH using inb True by (auto intro!: nth_equalityI simp: nth_list_update)
    finally show ?thesis .
  next
    case False
    then show ?thesis
      by (subst decrypt_loop.simps) (auto intro!: nth_equalityI)
  qed
qed

lemma print_state_loop_closed:
  assumes "16 \<le> length pData"
  shows "print_state_loop i pData =
          (concat (map (\<lambda>b. [PrintHex b, Print '' '']) (drop i (take 16 pData))), None)"
  using assms
proof (induction i pData rule: print_state_loop.induct)
  case (1 i pData)
  show ?case
  proof (cases "i < 16")
    case True
    with "1.prems" have r: "rd pData (int i) = Inr (pData ! i)"
      by (simp add: rd_in_range)
    have d: "drop i (take 16 pData) = pData ! i # drop (i + 1) (take 16 pData)"
      using True "1.prems" Cons_nth_drop_Suc [of i "take 16 pData", symmetric] by simp
    show ?thesis
      using "1.IH" [OF True r] "1.prems" True
      by (subst print_state_loop.simps) (simp add: r d)
  next
    case False
    then show ?thesis
      by (subst print_state_loop.simps) simp
  qed
qed

lemma decryptData_plain:
  assumes "19 \<le> length pData" "pData ! 18 \<noteq> 0xA7"
  shows "decryptData pData = (pData, None)"
  using assms by (simp add: decryptData_def isEncrypted_def rd_def)

lemma getNibble_38: "20 \<le> length pData \<Longrightarrow> getNibble pData 38 = Inr (pData ! 19 div 16)"
  using getNibble_even [of 19 pData] by simp

lemma getNibble_39: "20 \<le> length pData \<Longrightarrow> getNibble pData 39 = Inr (pData ! 19 mod 16)"
  using getNibble_odd [of 19 pData] by simp

lemma getNibble_32: "17 \<le> length pData \<Longrightarrow> getNibble pData 32 = Inr (pData ! 16 div 16)"
  using getNibble_even [of 16 pData] by simp

lemma getNibble_33: "17 \<le> length pData \<Longrightarrow> getNibble pData 33 = Inr (pData ! 16 mod 16)"
  using getNibble_odd [of 16 pData] by simp

lemma decryptData_encrypted:
  assumes "20 \<le> length pData" "pData ! 18 = 0xA7"
  shows "decryptData pData =
          (map (\<lambda>j. if j < 20
                     then add_assign (pData ! j)
                            (decryptionKey ! (unat (pData ! 19 div 16) + j))
                            (decryptionKey ! (unat (pData ! 19 mod 16) + j))
                     else pData ! j) [0..<length pData], None)"
proof -
  have o: "unat (pData ! 19 div 16) \<le> 16" "unat (pData ! 19 mod 16) \<le> 16"
    using nibble_hi_less [of "pData ! 19"] nibble_lo_less [of "pData ! 19"] by simp_all
  have "decryptData pData =
          decrypt_loop (unat (pData ! 19 div 16)) (unat (pData ! 19 mod 16)) 0 pData"
    using assms by (simp add: decryptData_def isEncrypted_def rd_def getNibble_38 getNibble_39)
  then show ?thesis
    using decrypt_loop_closed [OF o assms(1), of 0] by simp
qed

lemma length_decryptData:
  assumes "20 \<le> length pData"
  shows "length (fst (decryptData pData)) = length pData" "snd (decryptData pData) = None"
  using assms decryptData_plain [of pData] decryptData_encrypted [of pData]
  by (cases "pData ! 18 = 0xA7"; simp)+

lemma printCurrentState_closed:
  assumes "16 \<le> length pData"
  shows "printCurrentState pData =
          (Print ''Current State: '' #
             concat (map (\<lambda>b. [PrintHex b, Print '' '']) (take 16 pData)) @ [Println ''''], None)"
  using print_state_loop_closed [OF assms, of 0] by (simp add: printCurrentState_def)

lemma printLastMove_closed:
  assumes "17 \<le> length pData"
  shows "printLastMove pData =
          (if 1 \<le> unat (pData ! 16 div 16) \<and> unat (pData ! 16 div 16) \<le> 6
           then ([Print ''Last Move: '',
                  Print (faceNames ! (unat (pData ! 16 div 16) - 1)),
                  Print (if pData ! 16 mod 16 = 1 then '' Face Clockwise''
                         else '' Face Anti-Clockwise''),
                  Println '''', Println ''----''], None)
           else ([Print ''Last Move: ''],
                 Some (FaceNameOverrun (uint (pData ! 16 div 16) - 1))))"
proof -
  define f where "f = pData ! 16 div 16"
  define n where "n = pData ! 16 mod 16"
  have d: "uint n = 1 \<longleftrightarrow> n = 1"
    by (metis uint_1 word_uint_eq_iff)
  have k: "uint f = int (unat f)"
    by simp
  have i: "nat (uint f - 1) = unat f - 1"
    unfolding k by arith
  have c: "(0 \<le> uint f - 1 \<and> uint f - 1 < int (length faceNames))
             \<longleftrightarrow> (1 \<le> unat f \<and> unat f \<le> 6)"
    unfolding k faceNames_def by (simp del: of_nat_unat) arith
  have "printLastMove pData =
          (if 0 \<le> uint f - 1 \<and> uint f - 1 < int (length faceNames)
           then ([Print ''Last Move: '',
                  Print (faceNames ! nat (uint f - 1)),
                  Print (if uint n = 1 then '' Face Clockwise'' else '' Face Anti-Clockwise''),
                  Println '''', Println ''----''], None)
           else ([Print ''Last Move: ''], Some (FaceNameOverrun (uint f - 1))))"
    unfolding printLastMove_def getNibble_32 [OF assms] getNibble_33 [OF assms]
      f_def [symmetric] n_def [symmetric]
    by (simp only: sum.case)
  then show ?thesis
    unfolding c i d unfolding f_def n_def .
qed

lemma notifyCallback_closed:
  assumes "20 \<le> length pData"
  shows "notifyCallback pData =
          (let d = fst (decryptData pData) in
           \<lparr>buf = d,
            trace = fst (printCurrentState d) @ fst (printLastMove d) @
                    (if snd (printLastMove d) = None then fst (checkSolved d) else []),
            halt = snd (printLastMove d)\<rparr>)"
proof -
  obtain d where d: "decryptData pData = (d, None)"
    using length_decryptData(2) [OF assms] by (cases "decryptData pData") simp
  have len: "length d = length pData"
    using length_decryptData(1) [OF assms] d by simp
  obtain t1 where cs: "printCurrentState d = (t1, None)"
    using printCurrentState_closed [of d] len assms by simp
  have "snd (checkSolved d) = None"
    using len assms by (simp add: checkSolved_def)
  then obtain t3 where ck: "checkSolved d = (t3, None)"
    by (cases "checkSolved d") simp
  obtain t2 h2 where lm: "printLastMove d = (t2, h2)"
    by (cases "printLastMove d")
  show ?thesis
    by (cases h2) (simp_all add: notifyCallback_def d cs ck lm)
qed

lemma buf_notifyCallback: "buf (notifyCallback pData) = fst (decryptData pData)"
  by (simp add: notifyCallback_def split: prod.splits option.splits)

lemma prefix_state_trace:
  assumes "20 \<le> length pData"
  shows "prefix (fst (printCurrentState (fst (decryptData pData)))) (trace (notifyCallback pData))"
  by (simp add: notifyCallback_closed [OF assms] Let_def)

lemma decrypt_loop_no_KeyOverrun:
  assumes "offset1 \<le> 16" "offset2 \<le> 16"
  shows "snd (decrypt_loop offset1 offset2 i pData) \<noteq> Some (KeyOverrun k)"
  using assms
proof (induction offset1 offset2 i pData rule: decrypt_loop.induct)
  case (1 offset1 offset2 i pData)
  show ?case
  proof (cases "i < 20 \<and> i < length pData")
    case True
    with "1.prems" have inb: "offset1 + i < length decryptionKey"
      "offset2 + i < length decryptionKey"
      by (simp_all add: length_decryptionKey)
    show ?thesis
      using "1.IH" "1.prems" True inb by (subst decrypt_loop.simps) simp
  next
    case False
    with "1.prems" show ?thesis
      by (subst decrypt_loop.simps) (simp add: length_decryptionKey)
  qed
qed

lemma getNibble_le_15:
  assumes "getNibble val i = Inr b"
  shows "unat b \<le> 15"
proof -
  from assms obtain x where "b = x mod 16 \<or> b = x div 16"
    by (auto simp: getNibble_def split: if_splits sum.splits)
  then show ?thesis
    using nibble_hi_less [of x] nibble_lo_less [of x] by auto
qed

lemma decryptData_no_KeyOverrun: "snd (decryptData pData) \<noteq> Some (KeyOverrun k)"
proof -
  have "snd (decrypt_loop (unat o1) (unat o2) 0 pData) \<noteq> Some (KeyOverrun k)"
    if "getNibble pData 38 = Inr o1" "getNibble pData 39 = Inr o2" for o1 o2
    using getNibble_le_15 [OF that(1)] getNibble_le_15 [OF that(2)]
    by (intro decrypt_loop_no_KeyOverrun) simp_all
  then show ?thesis
    by (auto simp: decryptData_def isEncrypted_def getNibble_def rd_def
        split: sum.splits if_splits)
qed

lemma key_sum_18_all:
  "list_all (\<lambda>a. list_all (\<lambda>b. decryptionKey ! (a + 18) + decryptionKey ! (b + 18) \<noteq> 0) [0..<16]) [0..<16]"
  by code_simp

lemma key_sum_18_nonzero:
  assumes "a < 16" "b < 16"
  shows "decryptionKey ! (a + 18) + decryptionKey ! (b + 18) \<noteq> 0"
  using key_sum_18_all assms by (simp add: list_all_iff)

lemma pack_nibbles:
  assumes "a < 16" "b < 16"
  shows "(word_of_nat a * 16 + word_of_nat b :: u8) div 16 = word_of_nat a"
    and "(word_of_nat a * 16 + word_of_nat b :: u8) mod 16 = word_of_nat b"
    and "unat (word_of_nat a :: u8) = a"
    and "unat (word_of_nat b :: u8) = b"
proof -
  define w :: u8 where "w = word_of_nat (a * 16 + b)"
  have w: "word_of_nat a * 16 + word_of_nat b = w"
    by (simp add: w_def)
  have "a * 16 + b < 256"
    using assms by arith
  then have u: "unat w = a * 16 + b"
    unfolding w_def by (simp add: unat_of_nat del: of_nat_add of_nat_mult)
  show ua: "unat (word_of_nat a :: u8) = a" and ub: "unat (word_of_nat b :: u8) = b"
    using assms by (simp_all add: unat_of_nat)
  have "unat (w div 16) = a"
    using assms by (simp add: unat_div u)
  then show "(word_of_nat a * 16 + word_of_nat b :: u8) div 16 = word_of_nat a"
    unfolding w using ua by (simp only: word_unat_eq_iff)
  have "unat (w mod 16) = b"
    using assms by (simp add: unat_mod u)
  then show "(word_of_nat a * 16 + word_of_nat b :: u8) mod 16 = word_of_nat b"
    unfolding w using ub by (simp only: word_unat_eq_iff)
qed

lemma unpack_nibbles: "word_of_nat (unat (w div 16) * 16 + unat (w mod 16)) = (w :: u8)"
proof -
  have "unat (w div 16) * 16 + unat (w mod 16) = unat w"
    by (simp add: unat_div unat_mod)
  then show ?thesis
    by simp
qed

lemma length_obfuscate: "length (obfuscate offset1 offset2 plain) = 20"
  by (simp add: obfuscate_def)

lemma obfuscate_nth:
  "i < 18 \<Longrightarrow> obfuscate offset1 offset2 plain ! i =
     plain ! i + - (decryptionKey ! (offset1 + i) + decryptionKey ! (offset2 + i))"
  "obfuscate offset1 offset2 plain ! 18 = 0xA7"
  "obfuscate offset1 offset2 plain ! 19 = word_of_nat (offset1 * 16 + offset2)"
  by (simp_all add: obfuscate_def nth_append)

lemma buf_obfuscate:
  assumes "length plain = 18" "offset1 < 16" "offset2 < 16"
  shows "take 18 (buf (notifyCallback (obfuscate offset1 offset2 plain))) = plain"
proof -
  let ?raw = "obfuscate offset1 offset2 plain"
  have n: "unat (?raw ! 19 div 16) = offset1" "unat (?raw ! 19 mod 16) = offset2"
    using assms by (simp_all add: obfuscate_nth pack_nibbles)
  have "buf (notifyCallback ?raw) =
          map (\<lambda>j. if j < 20
                    then add_assign (?raw ! j) (decryptionKey ! (offset1 + j))
                           (decryptionKey ! (offset2 + j))
                    else ?raw ! j) [0..<20]"
    using decryptData_encrypted [of ?raw, unfolded n]
    by (simp add: buf_notifyCallback length_obfuscate obfuscate_nth(2))
  then show ?thesis
    using assms(1) by (auto intro!: nth_equalityI simp: obfuscate_nth add_assign_plus)
qed

lemma obfuscate_buf:
  assumes "length q = 20" "q ! 18 = 0xA7"
  shows "obfuscate (unat (q ! 19 div 16)) (unat (q ! 19 mod 16))
           (take 18 (buf (notifyCallback q))) = q"
proof -
  let ?o1 = "unat (q ! 19 div 16)" and ?o2 = "unat (q ! 19 mod 16)"
  let ?d = "buf (notifyCallback q)"
  have d: "?d ! i = q ! i + decryptionKey ! (?o1 + i) + decryptionKey ! (?o2 + i)"
    if "i < 20" for i
    using assms that by (simp add: buf_notifyCallback decryptData_encrypted add_assign_plus)
  have "obfuscate ?o1 ?o2 (take 18 ?d) ! i = q ! i" if "i < 20" for i
  proof -
    have "i < 18 \<or> i = 18 \<or> i = 19"
      using that by arith
    then consider "i < 18" | "i = 18" | "i = 19"
      by blast
    then show ?thesis
    proof cases
      case 1
      then show ?thesis
        by (simp add: obfuscate_nth d)
    next
      case 2
      then show ?thesis
        by (simp add: obfuscate_nth assms)
    next
      case 3
      then show ?thesis
        using unpack_nibbles [of "q ! 19"] by (simp add: obfuscate_nth)
    qed
  qed
  then show ?thesis
    using assms(1) by (auto intro!: nth_equalityI simp: length_obfuscate)
qed

lemma halt_notifyCallback:
  assumes "20 \<le> length pData"
  shows "halt (notifyCallback pData) =
          (if 1 \<le> unat (buf (notifyCallback pData) ! 16 div 16) \<and>
              unat (buf (notifyCallback pData) ! 16 div 16) \<le> 6
           then None
           else Some (FaceNameOverrun (uint (buf (notifyCallback pData) ! 16 div 16) - 1)))"
  using assms
  by (simp add: notifyCallback_closed Let_def buf_notifyCallback printLastMove_closed
      length_decryptData)

lemma relay_in_trace:
  assumes "20 \<le> length pData"
  shows "DigitalWrite relayPin HIGH \<in> set (trace (notifyCallback pData)) \<longleftrightarrow>
           halt (notifyCallback pData) = None \<and> take 16 (buf (notifyCallback pData)) = solution"
proof -
  let ?d = "fst (decryptData pData)"
  have l: "length ?d = length pData"
    using assms by (simp add: length_decryptData)
  have a: "DigitalWrite relayPin HIGH \<notin> set (fst (printCurrentState ?d))"
    using assms l by (auto simp: printCurrentState_closed)
  have b: "DigitalWrite relayPin HIGH \<notin> set (fst (printLastMove ?d))"
    using assms l by (simp add: printLastMove_closed)
  have c: "DigitalWrite relayPin HIGH \<in> set (fst (checkSolved ?d)) \<longleftrightarrow> take 16 ?d = solution"
    using assms l by (simp add: checkSolved_def)
  show ?thesis
    using a b c by (simp add: notifyCallback_closed [OF assms] Let_def)
qed

lemma flip_bit_differs:
  assumes "k < 8"
  shows "(b :: u8) XOR push_bit k 1 \<noteq> b"
proof -
  have "(push_bit k 1 :: u8) \<noteq> 0"
    using assms by simp
  then show ?thesis
    by (metis bit.xor_left_self bit.xor_self)
qed

lemma decode_differs:
  assumes "20 \<le> length pData" "i < 16" "b \<noteq> pData ! i"
  shows "buf (notifyCallback (pData[i := b])) ! i \<noteq> buf (notifyCallback pData) ! i"
proof (cases "pData ! 18 = 0xA7")
  case True
  then show ?thesis
    using assms
    by (simp add: buf_notifyCallback decryptData_encrypted add_assign_plus)
next
  case False
  then show ?thesis
    using assms by (simp add: buf_notifyCallback decryptData_plain)
qed

lemma decryptData_append:
  assumes "length q = 20"
  shows "decryptData (q @ r) = (fst (decryptData q) @ r, None)"
proof (cases "q ! 18 = 0xA7")
  case True
  have "map (\<lambda>j. if j < 20
                   then add_assign ((q @ r) ! j)
                          (decryptionKey ! (unat ((q @ r) ! 19 div 16) + j))
                          (decryptionKey ! (unat ((q @ r) ! 19 mod 16) + j))
                   else (q @ r) ! j) [0..<length (q @ r)] =
        map (\<lambda>j. if j < 20
                   then add_assign (q ! j)
                          (decryptionKey ! (unat (q ! 19 div 16) + j))
                          (decryptionKey ! (unat (q ! 19 mod 16) + j))
                   else q ! j) [0..<length q] @ r"
    using assms by (auto intro!: nth_equalityI simp: nth_append)
  then show ?thesis
    using assms True
    by (simp add: decryptData_encrypted [of "q @ r"] decryptData_encrypted [of q] nth_append)
next
  case False
  then show ?thesis
    using assms by (simp add: decryptData_plain nth_append)
qed

lemma stages_append:
  assumes "length d = 20"
  shows "printCurrentState (d @ r) = printCurrentState d"
    and "printLastMove (d @ r) = printLastMove d"
    and "checkSolved (d @ r) = checkSolved d"
  using assms
  by (simp_all add: printCurrentState_closed printLastMove_closed checkSolved_def nth_append)

lemma notifyCallback_append:
  assumes "length q = 20"
  shows "notifyCallback (q @ r) = (notifyCallback q)\<lparr>buf := buf (notifyCallback q) @ r\<rparr>"
proof -
  have l: "length (fst (decryptData q)) = 20"
    using assms by (simp add: length_decryptData)
  show ?thesis
    using assms
    by (simp add: notifyCallback_closed [of "q @ r"] notifyCallback_closed [of q] Let_def
        decryptData_append stages_append [OF l])
qed

section \<open>The claims of the specification\<close>

text \<open>
  C8. For every 20-byte payload whose byte 18 is not \<open>0xA7\<close>, the decoder leaves all 20
  bytes of the payload as they are, and the piece state it emits (the bytes printed after
  \<open>Current State:\<close>) is bytes 0 to 15 of the payload, verbatim and in order.
\<close>

theorem C8_plain_passthrough:
  assumes "length p = 20" and "p ! 18 \<noteq> 0xA7"
  shows "buf (notifyCallback p) = p \<and>
         prefix (Print ''Current State: '' #
                   concat (map (\<lambda>b. [PrintHex b, Print '' '']) (take 16 p)) @ [Println ''''])
           (trace (notifyCallback p))"
proof -
  have d: "decryptData p = (p, None)"
    using assms by (simp add: decryptData_plain)
  have "prefix (fst (printCurrentState p)) (trace (notifyCallback p))"
    using prefix_state_trace [of p] assms(1) d by simp
  then show ?thesis
    using assms(1) d by (simp add: buf_notifyCallback printCurrentState_closed)
qed

theorem C8_plain_passthrough_witness:
  "length plain_example = 20 \<and> plain_example ! 18 \<noteq> 0xA7 \<and>
   buf (notifyCallback plain_example) = plain_example \<and>
   prefix (Print ''Current State: '' #
             concat (map (\<lambda>b. [PrintHex b, Print '' '']) (take 16 plain_example)) @
             [Println ''''])
     (trace (notifyCallback plain_example))"
proof -
  have h: "length plain_example = 20" "plain_example ! 18 \<noteq> 0xA7"
    by (simp_all add: plain_example_def)
  show ?thesis
    using h C8_plain_passthrough [OF h] by simp
qed

text \<open>
  C9. For every 20-byte payload, the two offsets that \<open>getNibble\<close> extracts from byte 19
  are at most 15, so every index \<open>offset1 + i\<close> and \<open>offset2 + i\<close> with \<open>i < 20\<close> is
  below 36, the length of \<open>decryptionKey\<close>: de-obfuscation never reads outside the key
  table, and the callback never ends with a \<open>KeyOverrun\<close> fault.
\<close>

theorem C9_key_index_in_bounds:
  assumes "length p = 20"
  shows "length decryptionKey = 36 \<and>
         (\<exists>offset1 offset2.
            getNibble p 38 = Inr offset1 \<and> getNibble p 39 = Inr offset2 \<and>
            unat offset1 \<le> 15 \<and> unat offset2 \<le> 15 \<and>
            (\<forall>i<20. unat offset1 + i < length decryptionKey \<and>
                     unat offset2 + i < length decryptionKey)) \<and>
         (\<forall>k. snd (decryptData p) \<noteq> Some (KeyOverrun k)) \<and>
         (\<forall>k. halt (notifyCallback p) \<noteq> Some (KeyOverrun k))"
proof -
  have n: "getNibble p 38 = Inr (p ! 19 div 16)" "getNibble p 39 = Inr (p ! 19 mod 16)"
    using assms by (simp_all add: getNibble_38 getNibble_39)
  have b: "unat (p ! 19 div 16) \<le> 15" "unat (p ! 19 mod 16) \<le> 15"
    using n by (simp_all only: getNibble_le_15)
  have i: "\<forall>i<20. unat (p ! 19 div 16) + i < length decryptionKey \<and>
                   unat (p ! 19 mod 16) + i < length decryptionKey"
    using b by (simp add: length_decryptionKey)
  have h: "halt (notifyCallback p) \<noteq> Some (KeyOverrun k)" for k
    using assms
    by (simp add: notifyCallback_closed Let_def printLastMove_closed length_decryptData)
  show ?thesis
    using n b i h decryptData_no_KeyOverrun length_decryptionKey by blast
qed

theorem C9_key_index_in_bounds_witness:
  "length encrypted_example = 20 \<and>
   length decryptionKey = 36 \<and>
   (\<exists>offset1 offset2.
      getNibble encrypted_example 38 = Inr offset1 \<and>
      getNibble encrypted_example 39 = Inr offset2 \<and>
      unat offset1 \<le> 15 \<and> unat offset2 \<le> 15 \<and>
      (\<forall>i<20. unat offset1 + i < length decryptionKey \<and>
               unat offset2 + i < length decryptionKey)) \<and>
   (\<forall>k. snd (decryptData encrypted_example) \<noteq> Some (KeyOverrun k)) \<and>
   (\<forall>k. halt (notifyCallback encrypted_example) \<noteq> Some (KeyOverrun k))"
proof -
  have h: "length encrypted_example = 20"
    by (simp add: encrypted_example_def)
  show ?thesis
    using h C9_key_index_in_bounds [OF h] by blast
qed

text \<open>
  C1. For every 20-byte payload with byte 18 equal to \<open>0xA7\<close>, the decoder reads
  \<open>offset1\<close> as the high nibble and \<open>offset2\<close> as the low nibble of byte 19 (nibbles
  38 and 39), and the buffer it leaves holds, at every index \<open>i < 20\<close>, the value
  \<open>(payload[i] + key[offset1 + i] + key[offset2 + i]) mod 256\<close>.
\<close>

theorem C1_deobfuscation:
  assumes "length p = 20" and "p ! 18 = 0xA7"
  shows "getNibble p 38 = Inr (p ! 19 div 16) \<and>
         getNibble p 39 = Inr (p ! 19 mod 16) \<and>
         unat (p ! 19 div 16) = unat (p ! 19) div 16 \<and>
         unat (p ! 19 mod 16) = unat (p ! 19) mod 16 \<and>
         length (buf (notifyCallback p)) = 20 \<and>
         (\<forall>i<20. unat (buf (notifyCallback p) ! i) =
                    (unat (p ! i)
                     + unat (decryptionKey ! (unat (p ! 19) div 16 + i))
                     + unat (decryptionKey ! (unat (p ! 19) mod 16 + i))) mod 256)"
proof -
  have n: "getNibble p 38 = Inr (p ! 19 div 16)" "getNibble p 39 = Inr (p ! 19 mod 16)"
    using assms by (simp_all add: getNibble_38 getNibble_39)
  have u: "unat (p ! 19 div 16) = unat (p ! 19) div 16"
    "unat (p ! 19 mod 16) = unat (p ! 19) mod 16"
    by (simp_all add: unat_div unat_mod)
  have b: "buf (notifyCallback p) =
            map (\<lambda>j. if j < 20
                      then add_assign (p ! j)
                             (decryptionKey ! (unat (p ! 19 div 16) + j))
                             (decryptionKey ! (unat (p ! 19 mod 16) + j))
                      else p ! j) [0..<length p]"
    using assms by (simp add: buf_notifyCallback decryptData_encrypted)
  have "length (buf (notifyCallback p)) = 20"
    unfolding b using assms by simp
  moreover have "unat (buf (notifyCallback p) ! i) =
                    (unat (p ! i)
                     + unat (decryptionKey ! (unat (p ! 19) div 16 + i))
                     + unat (decryptionKey ! (unat (p ! 19) mod 16 + i))) mod 256"
    if "i < 20" for i
    unfolding b using assms that by (simp add: unat_add_assign u)
  ultimately show ?thesis
    using n u by blast
qed

theorem C1_deobfuscation_witness:
  "length encrypted_example = 20 \<and> encrypted_example ! 18 = 0xA7 \<and>
   getNibble encrypted_example 38 = Inr 0xF \<and>
   getNibble encrypted_example 39 = Inr 0x1 \<and>
   length (buf (notifyCallback encrypted_example)) = 20 \<and>
   unat (buf (notifyCallback encrypted_example) ! 0) = (0x70 + 81 + 81) mod 256 \<and>
   unat (buf (notifyCallback encrypted_example) ! 19) = (0xF1 + 171 + 89) mod 256"
proof -
  have h: "length encrypted_example = 20" "encrypted_example ! 18 = 0xA7"
    by (simp_all add: encrypted_example_def)
  note t = C1_deobfuscation [OF h]
  have a: "unat (buf (notifyCallback encrypted_example) ! 0) = (0x70 + 81 + 81) mod 256"
    using t [THEN conjunct2, THEN conjunct2, THEN conjunct2, THEN conjunct2, THEN conjunct2,
             THEN spec, of 0]
    by (simp add: encrypted_example_def decryptionKey_def)
  have b: "unat (buf (notifyCallback encrypted_example) ! 19) = (0xF1 + 171 + 89) mod 256"
    using t [THEN conjunct2, THEN conjunct2, THEN conjunct2, THEN conjunct2, THEN conjunct2,
             THEN spec, of 19]
    by (simp add: encrypted_example_def decryptionKey_def)
  have n: "getNibble encrypted_example 38 = Inr 0xF" "getNibble encrypted_example 39 = Inr 0x1"
    using t by (simp_all add: encrypted_example_def)
  show ?thesis
    using h t a b n by simp
qed


text \<open>
  C4. A 20-byte payload is treated as obfuscated exactly when its byte 18 is \<open>0xA7\<close>:
  then the transform loop runs on it, with the offsets of byte 19, and otherwise the
  payload is passed on as it is. The gate is observable: the buffer differs from the
  payload afterwards if and only if byte 18 is \<open>0xA7\<close>.
\<close>

theorem C4_marker_gate:
  assumes "length p = 20"
  shows "isEncrypted p = Inr (p ! 18 = 0xA7) \<and>
         decryptData p =
           (if p ! 18 = 0xA7
            then decrypt_loop (unat (p ! 19 div 16)) (unat (p ! 19 mod 16)) 0 p
            else (p, None)) \<and>
         (buf (notifyCallback p) \<noteq> p \<longleftrightarrow> p ! 18 = 0xA7)"
proof -
  have e: "isEncrypted p = Inr (p ! 18 = 0xA7)"
    using assms by (simp add: isEncrypted_def rd_def)
  have d: "decryptData p =
           (if p ! 18 = 0xA7
            then decrypt_loop (unat (p ! 19 div 16)) (unat (p ! 19 mod 16)) 0 p
            else (p, None))"
    using assms by (simp add: decryptData_def e getNibble_38 getNibble_39)
  have "buf (notifyCallback p) \<noteq> p" if m: "p ! 18 = 0xA7"
  proof -
    have "buf (notifyCallback p) ! 18 =
            p ! 18 + (decryptionKey ! (unat (p ! 19 div 16) + 18)
                      + decryptionKey ! (unat (p ! 19 mod 16) + 18))"
      using assms m
      by (simp add: buf_notifyCallback decryptData_encrypted add_assign_plus add.assoc)
    moreover have "decryptionKey ! (unat (p ! 19 div 16) + 18)
                     + decryptionKey ! (unat (p ! 19 mod 16) + 18) \<noteq> 0"
      by (intro key_sum_18_nonzero nibble_hi_less nibble_lo_less)
    ultimately have "buf (notifyCallback p) ! 18 \<noteq> p ! 18"
      by simp
    then show ?thesis
      by auto
  qed
  moreover have "buf (notifyCallback p) = p" if "p ! 18 \<noteq> 0xA7"
    using assms that by (simp add: buf_notifyCallback decryptData_plain)
  ultimately show ?thesis
    using e d by blast
qed

theorem C4_marker_gate_witness:
  "length encrypted_example = 20 \<and> length plain_example = 20 \<and>
   isEncrypted encrypted_example = Inr True \<and>
   isEncrypted plain_example = Inr False \<and>
   buf (notifyCallback encrypted_example) \<noteq> encrypted_example \<and>
   buf (notifyCallback plain_example) = plain_example"
proof -
  have h: "length encrypted_example = 20" "length plain_example = 20"
    by (simp_all add: encrypted_example_def plain_example_def)
  have m: "encrypted_example ! 18 = 0xA7" "plain_example ! 18 \<noteq> 0xA7"
    by (simp_all add: encrypted_example_def plain_example_def)
  show ?thesis
    using h m C4_marker_gate [OF h(1)] C4_marker_gate [OF h(2)] by simp
qed

text \<open>
  C10. The offsets are read from byte 19 before the loop changes any byte and are then
  fixed arguments of the loop. So every byte of an obfuscated 20-byte payload, byte 19
  included, is transformed with the offsets of the original byte 19, although byte 19 is
  itself overwritten; and the first 20 bytes of the result depend on the first 20 bytes
  of the input only.
\<close>

theorem C10_offsets_from_original_payload:
  assumes "length p = 20" and "p ! 18 = 0xA7"
  shows "decryptData p = decrypt_loop (unat (p ! 19 div 16)) (unat (p ! 19 mod 16)) 0 p \<and>
         (\<forall>i<20. buf (notifyCallback p) ! i =
                    add_assign (p ! i) (decryptionKey ! (unat (p ! 19 div 16) + i))
                      (decryptionKey ! (unat (p ! 19 mod 16) + i))) \<and>
         buf (notifyCallback p) ! 19 =
           p ! 19 + decryptionKey ! (unat (p ! 19 div 16) + 19)
                  + decryptionKey ! (unat (p ! 19 mod 16) + 19) \<and>
         (\<forall>q. take 20 q = p \<longrightarrow> take 20 (buf (notifyCallback q)) = buf (notifyCallback p))"
proof -
  have d: "decryptData p = decrypt_loop (unat (p ! 19 div 16)) (unat (p ! 19 mod 16)) 0 p"
    using assms by (simp add: decryptData_def isEncrypted_def rd_def getNibble_38 getNibble_39)
  have b: "buf (notifyCallback p) ! i =
             add_assign (p ! i) (decryptionKey ! (unat (p ! 19 div 16) + i))
               (decryptionKey ! (unat (p ! 19 mod 16) + i))" if "i < 20" for i
    using assms that by (simp add: buf_notifyCallback decryptData_encrypted)
  have f: "take 20 (buf (notifyCallback q)) = buf (notifyCallback p)" if q: "take 20 q = p" for q
  proof -
    have l: "20 \<le> length q"
      using q assms(1) by (metis length_take min.cobounded1 min_def nat_le_linear)
    have e: "q ! j = p ! j" if "j < 20" for j
      using q that by (metis nth_take)
    show ?thesis
      using l assms e
      by (auto intro!: nth_equalityI
          simp: buf_notifyCallback decryptData_encrypted [of q] decryptData_encrypted [of p])
  qed
  show ?thesis
    using d b [of 19] b f by (simp add: add_assign_plus)
qed

theorem C10_offsets_from_original_payload_witness:
  "length encrypted_example = 20 \<and> encrypted_example ! 18 = 0xA7 \<and>
   buf (notifyCallback encrypted_example) ! 19 = 0xF1 + 171 + 89 \<and>
   buf (notifyCallback encrypted_example) ! 19 \<noteq> encrypted_example ! 19 \<and>
   buf (notifyCallback encrypted_example) ! 0 = add_assign 0x70 81 81 \<and>
   take 20 (buf (notifyCallback (encrypted_example @ [0, 0]))) =
     buf (notifyCallback encrypted_example)"
proof -
  have h: "length encrypted_example = 20" "encrypted_example ! 18 = 0xA7"
    by (simp_all add: encrypted_example_def)
  note t = C10_offsets_from_original_payload [OF h]
  have a: "buf (notifyCallback encrypted_example) ! 19 = 0xF1 + 171 + 89"
    using t by (simp add: encrypted_example_def decryptionKey_def)
  have b: "buf (notifyCallback encrypted_example) ! 0 = add_assign 0x70 81 81"
    using t [THEN conjunct2, THEN conjunct1, THEN spec, of 0]
    by (simp add: encrypted_example_def decryptionKey_def)
  have c: "take 20 (buf (notifyCallback (encrypted_example @ [0, 0]))) =
             buf (notifyCallback encrypted_example)"
    using t [THEN conjunct2, THEN conjunct2, THEN conjunct2, THEN spec,
             of "encrypted_example @ [0, 0]"] h(1)
    by simp
  show ?thesis
    using h a b c by (simp add: encrypted_example_def)
qed

text \<open>
  C2. For every 16-byte piece state and every pair of offsets below 16: the payload built
  by the forward transform (marker byte \<open>0xA7\<close>, the offsets in the nibbles of byte 19)
  is decoded back to the original: the decoder reads the same two offsets, the first 16
  bytes of its buffer are the piece state and are what it prints (bytes 16 and 17 come
  back too). The relation is symmetric: applying the forward transform to what the
  decoder makes of any obfuscated 20-byte payload gives that payload back.
\<close>

theorem C2_obfuscation_reversal:
  assumes "length state = 16" and "offset1 < 16" and "offset2 < 16"
    and "raw = obfuscate offset1 offset2 (state @ [m, x])"
  shows "length raw = 20 \<and> raw ! 18 = 0xA7 \<and>
         getNibble raw 38 = Inr (word_of_nat offset1) \<and>
         getNibble raw 39 = Inr (word_of_nat offset2) \<and>
         take 16 (buf (notifyCallback raw)) = state \<and>
         take 18 (buf (notifyCallback raw)) = state @ [m, x] \<and>
         prefix (Print ''Current State: '' #
                   concat (map (\<lambda>b. [PrintHex b, Print '' '']) state) @ [Println ''''])
           (trace (notifyCallback raw)) \<and>
         (\<forall>q. length q = 20 \<and> q ! 18 = 0xA7 \<longrightarrow>
              obfuscate (unat (q ! 19 div 16)) (unat (q ! 19 mod 16))
                (take 18 (buf (notifyCallback q))) = q)"
proof -
  have l: "length raw = 20" and m: "raw ! 18 = 0xA7"
    using assms(4) by (simp_all add: length_obfuscate obfuscate_nth)
  have n: "getNibble raw 38 = Inr (word_of_nat offset1)"
    "getNibble raw 39 = Inr (word_of_nat offset2)"
    using assms l by (simp_all add: getNibble_38 getNibble_39 obfuscate_nth pack_nibbles)
  have b: "take 18 (buf (notifyCallback raw)) = state @ [m, x]"
    using assms buf_obfuscate [of "state @ [m, x]" offset1 offset2] by simp
  then have "take 16 (take 18 (buf (notifyCallback raw))) = take 16 (state @ [m, x])"
    by simp
  then have s: "take 16 (buf (notifyCallback raw)) = state"
    using assms(1) by simp
  have "length (buf (notifyCallback raw)) = 20"
    using l by (simp add: buf_notifyCallback length_decryptData)
  then have p: "prefix (Print ''Current State: '' #
                   concat (map (\<lambda>b. [PrintHex b, Print '' '']) state) @ [Println ''''])
           (trace (notifyCallback raw))"
    using prefix_state_trace [of raw] l s
    by (simp add: printCurrentState_closed buf_notifyCallback)
  show ?thesis
    using l m n b s p obfuscate_buf by blast
qed

theorem C2_obfuscation_reversal_witness:
  "length solution = 16 \<and> (15::nat) < 16 \<and> (1::nat) < 16 \<and>
   obfuscate 15 1 (solution @ [0x53, 0x51]) = encrypted_example \<and>
   take 16 (buf (notifyCallback encrypted_example)) = solution \<and>
   take 18 (buf (notifyCallback encrypted_example)) = solution @ [0x53, 0x51] \<and>
   prefix (Print ''Current State: '' #
             concat (map (\<lambda>b. [PrintHex b, Print '' '']) solution) @ [Println ''''])
     (trace (notifyCallback encrypted_example)) \<and>
   length encrypted_example2 = 20 \<and> encrypted_example2 ! 18 = 0xA7 \<and>
   obfuscate 0 5 (take 18 (buf (notifyCallback encrypted_example2))) = encrypted_example2"
proof -
  have h: "length solution = 16" "(15::nat) < 16" "(1::nat) < 16"
    by (simp_all add: solution_def)
  have e: "encrypted_example = obfuscate 15 1 (solution @ [0x53, 0x51])"
    by (simp add: obfuscate_def encrypted_example_def solution_def decryptionKey_def
        upt_conv_Cons)
  note t = C2_obfuscation_reversal [OF h e]
  have q: "length encrypted_example2 = 20 \<and> encrypted_example2 ! 18 = 0xA7"
    by (simp add: encrypted_example2_def)
  have o: "unat (encrypted_example2 ! 19 div 16) = 0" "unat (encrypted_example2 ! 19 mod 16) = 5"
    by (simp_all add: encrypted_example2_def)
  have s: "obfuscate 0 5 (take 18 (buf (notifyCallback encrypted_example2))) = encrypted_example2"
    using t q o by metis
  show ?thesis
    using h e t q s by simp
qed

text \<open>
  C5. For every 20-byte payload whose decoded byte 16 has a high nibble from 1 to 6, the
  callback runs to its end and, after the piece state, prints the face
  \<open>faceNames[nibble - 1]\<close>, that is 1 = Front, 2 = Bottom, 3 = Right, 4 = Top, 5 = Left,
  6 = Back, followed by \<open>Face Clockwise\<close> exactly when the low nibble of byte 16 is 1
  and by \<open>Face Anti-Clockwise\<close> for every other value of it.
\<close>

theorem C5_move_decoding:
  assumes "length p = 20" and "d = buf (notifyCallback p)"
    and "1 \<le> unat (d ! 16 div 16)" and "unat (d ! 16 div 16) \<le> 6"
  shows "getNibble d 32 = Inr (d ! 16 div 16) \<and>
         getNibble d 33 = Inr (d ! 16 mod 16) \<and>
         halt (notifyCallback p) = None \<and>
         trace (notifyCallback p) =
           fst (printCurrentState d) @
           [Print ''Last Move: '',
            Print ([''Front'', ''Bottom'', ''Right'', ''Top'', ''Left'', ''Back'']
                     ! (unat (d ! 16 div 16) - 1)),
            Print (if d ! 16 mod 16 = 1 then '' Face Clockwise'' else '' Face Anti-Clockwise''),
            Println '''',
            Println ''----''] @
           fst (checkSolved d)"
proof -
  have l: "length d = 20"
    using assms(1,2) by (simp add: buf_notifyCallback length_decryptData)
  have n: "getNibble d 32 = Inr (d ! 16 div 16)" "getNibble d 33 = Inr (d ! 16 mod 16)"
    using l by (simp_all add: getNibble_32 getNibble_33)
  have h: "halt (notifyCallback p) = None"
    using assms by (simp add: halt_notifyCallback)
  have m: "printLastMove d =
            ([Print ''Last Move: '',
              Print ([''Front'', ''Bottom'', ''Right'', ''Top'', ''Left'', ''Back'']
                       ! (unat (d ! 16 div 16) - 1)),
              Print (if d ! 16 mod 16 = 1 then '' Face Clockwise''
                     else '' Face Anti-Clockwise''),
              Println '''',
              Println ''----''], None)"
    using l assms(3,4) by (simp add: printLastMove_closed faceNames_def)
  have "trace (notifyCallback p) =
          fst (printCurrentState d) @ fst (printLastMove d) @ fst (checkSolved d)"
    using assms(1,2) m
    by (simp add: notifyCallback_closed Let_def buf_notifyCallback)
  then show ?thesis
    using n h m by simp
qed

theorem C5_move_decoding_witness:
  "trace (notifyCallback (solution @ [0x11, 0, 0, 0])) =
     fst (printCurrentState (solution @ [0x11, 0, 0, 0])) @
     [Print ''Last Move: '', Print ''Front'', Print '' Face Clockwise'',
      Println '''', Println ''----''] @
     fst (checkSolved (solution @ [0x11, 0, 0, 0])) \<and>
   trace (notifyCallback (solution @ [0x12, 0, 0, 0])) =
     fst (printCurrentState (solution @ [0x12, 0, 0, 0])) @
     [Print ''Last Move: '', Print ''Front'', Print '' Face Anti-Clockwise'',
      Println '''', Println ''----''] @
     fst (checkSolved (solution @ [0x12, 0, 0, 0])) \<and>
   trace (notifyCallback (solution @ [0x63, 0, 0, 0])) =
     fst (printCurrentState (solution @ [0x63, 0, 0, 0])) @
     [Print ''Last Move: '', Print ''Back'', Print '' Face Anti-Clockwise'',
      Println '''', Println ''----''] @
     fst (checkSolved (solution @ [0x63, 0, 0, 0]))"
proof -
  have b: "buf (notifyCallback (solution @ [m, 0, 0, 0])) = solution @ [m, 0, 0, 0]" for m
    by (simp add: buf_notifyCallback decryptData_plain length_solution nth_append)
  have t: "trace (notifyCallback (solution @ [m, 0, 0, 0])) =
     fst (printCurrentState (solution @ [m, 0, 0, 0])) @
     [Print ''Last Move: '',
      Print ([''Front'', ''Bottom'', ''Right'', ''Top'', ''Left'', ''Back'']
               ! (unat (m div 16) - 1)),
      Print (if m mod 16 = 1 then '' Face Clockwise'' else '' Face Anti-Clockwise''),
      Println '''', Println ''----''] @
     fst (checkSolved (solution @ [m, 0, 0, 0]))"
    if "1 \<le> unat (m div 16)" "unat (m div 16) \<le> 6" for m
    using that C5_move_decoding [of "solution @ [m, 0, 0, 0]" "solution @ [m, 0, 0, 0]"]
    by (simp add: b length_solution nth_append)
  show ?thesis
    using t [of "0x11"] t [of "0x12"] t [of "0x63"] by simp
qed

text \<open>
  C3. Counterexample to the claim as stated: the canonical solved bytes followed by the
  suffix 57 00 A7 00. Byte 16 names a valid move and byte 18 is the marker, so the
  payload is de-obfuscated first (offsets 0 and 0); the decoded move is Front clockwise,
  the decoded piece state is no longer the solved pattern and the relay is not pulsed.
\<close>

theorem C3_solved_detection_counterexample:
  "take 16 (solution @ [0x57, 0x00, 0xA7, 0x00]) = solution \<and>
   notifyCallback (solution @ [0x57, 0x00, 0xA7, 0x00]) =
     \<lparr>buf = [0x72, 0xD6, 0x26, 0x38, 0xDF, 0x45, 0x0D, 0x21, 0x5E, 0x68,
             0xD8, 0xBA, 0x3E, 0xB8, 0x2C, 0xA2, 0x11, 0x1A, 0x7F, 0xF2],
      trace =
        [Print ''Current State: '',
         PrintHex 0x72, Print '' '', PrintHex 0xD6, Print '' '', PrintHex 0x26, Print '' '',
         PrintHex 0x38, Print '' '', PrintHex 0xDF, Print '' '', PrintHex 0x45, Print '' '',
         PrintHex 0x0D, Print '' '', PrintHex 0x21, Print '' '', PrintHex 0x5E, Print '' '',
         PrintHex 0x68, Print '' '', PrintHex 0xD8, Print '' '', PrintHex 0xBA, Print '' '',
         PrintHex 0x3E, Print '' '', PrintHex 0xB8, Print '' '', PrintHex 0x2C, Print '' '',
         PrintHex 0xA2, Print '' '', Println '''',
         Print ''Last Move: '', Print ''Front'', Print '' Face Clockwise'',
         Println '''', Println ''----''],
      halt = None\<rparr> \<and>
   DigitalWrite relayPin HIGH \<notin> set (trace (notifyCallback (solution @ [0x57, 0x00, 0xA7, 0x00])))"
proof -
  have e: "notifyCallback (solution @ [0x57, 0x00, 0xA7, 0x00]) =
     \<lparr>buf = [0x72, 0xD6, 0x26, 0x38, 0xDF, 0x45, 0x0D, 0x21, 0x5E, 0x68,
             0xD8, 0xBA, 0x3E, 0xB8, 0x2C, 0xA2, 0x11, 0x1A, 0x7F, 0xF2],
      trace =
        [Print ''Current State: '',
         PrintHex 0x72, Print '' '', PrintHex 0xD6, Print '' '', PrintHex 0x26, Print '' '',
         PrintHex 0x38, Print '' '', PrintHex 0xDF, Print '' '', PrintHex 0x45, Print '' '',
         PrintHex 0x0D, Print '' '', PrintHex 0x21, Print '' '', PrintHex 0x5E, Print '' '',
         PrintHex 0x68, Print '' '', PrintHex 0xD8, Print '' '', PrintHex 0xBA, Print '' '',
         PrintHex 0x3E, Print '' '', PrintHex 0xB8, Print '' '', PrintHex 0x2C, Print '' '',
         PrintHex 0xA2, Print '' '', Println '''',
         Print ''Last Move: '', Print ''Front'', Print '' Face Clockwise'',
         Println '''', Println ''----''],
      halt = None\<rparr>"
    by code_simp
  show ?thesis
    unfolding e by (simp add: solution_def)
qed

text \<open>
  C3, as amended. For every 20-byte payload that decodes to a valid move (the face
  nibble of the decoded byte 16 is between 1 and 6), the relay is pulsed if and only if
  the 16 decoded piece-state bytes equal \<open>solution\<close>. In particular the canonical solved
  bytes followed by any such suffix whose marker byte 18 is not \<open>0xA7\<close> are reported
  solved, and flipping any single bit in bytes 0 to 15 of a payload that is reported
  solved gives one that is not.
\<close>

theorem C3_solved_detection:
  assumes "length p = 20"
    and "1 \<le> unat (buf (notifyCallback p) ! 16 div 16)"
    and "unat (buf (notifyCallback p) ! 16 div 16) \<le> 6"
  shows "(DigitalWrite relayPin HIGH \<in> set (trace (notifyCallback p)) \<longleftrightarrow>
            take 16 (buf (notifyCallback p)) = solution) \<and>
         (take 16 p = solution \<and> p ! 18 \<noteq> 0xA7 \<longrightarrow>
            DigitalWrite relayPin HIGH \<in> set (trace (notifyCallback p))) \<and>
         (\<forall>i<16. \<forall>k<8.
            DigitalWrite relayPin HIGH \<in> set (trace (notifyCallback p)) \<longrightarrow>
            DigitalWrite relayPin HIGH
              \<notin> set (trace (notifyCallback (p[i := p ! i XOR push_bit k 1]))))"
proof -
  have h: "halt (notifyCallback p) = None"
    using assms by (simp add: halt_notifyCallback)
  have a: "DigitalWrite relayPin HIGH \<in> set (trace (notifyCallback p)) \<longleftrightarrow>
            take 16 (buf (notifyCallback p)) = solution"
    using assms(1) h by (simp add: relay_in_trace)
  have b: "DigitalWrite relayPin HIGH \<in> set (trace (notifyCallback p))"
    if "take 16 p = solution" "p ! 18 \<noteq> 0xA7"
    using a that assms(1) by (simp add: buf_notifyCallback decryptData_plain)
  have c: "DigitalWrite relayPin HIGH
             \<notin> set (trace (notifyCallback (p[i := p ! i XOR push_bit k 1])))"
    if "i < 16" "k < 8" "DigitalWrite relayPin HIGH \<in> set (trace (notifyCallback p))" for i k
  proof -
    let ?p' = "p[i := p ! i XOR push_bit k 1]"
    have s: "take 16 (buf (notifyCallback p)) = solution"
      using a that(3) by simp
    have "buf (notifyCallback ?p') ! i \<noteq> buf (notifyCallback p) ! i"
    proof (rule decode_differs)
      show "20 \<le> length p"
        using assms(1) by simp
      show "i < 16"
        by (rule that(1))
      show "p ! i XOR push_bit k 1 \<noteq> p ! i"
        using that(2) by (rule flip_bit_differs)
    qed
    then have "take 16 (buf (notifyCallback ?p')) ! i \<noteq> take 16 (buf (notifyCallback p)) ! i"
      using that(1) by simp
    then have "take 16 (buf (notifyCallback ?p')) \<noteq> solution"
      using s by auto
    then show ?thesis
      using assms(1) by (simp add: relay_in_trace)
  qed
  show ?thesis
    using a b c by blast
qed

theorem C3_solved_detection_witness:
  "length plain_example = 20 \<and>
   unat (buf (notifyCallback plain_example) ! 16 div 16) = 4 \<and>
   take 16 plain_example = solution \<and>
   plain_example ! 18 \<noteq> 0xA7 \<and>
   DigitalWrite relayPin HIGH \<in> set (trace (notifyCallback plain_example)) \<and>
   DigitalWrite relayPin HIGH
     \<notin> set (trace (notifyCallback (plain_example[0 := plain_example ! 0 XOR push_bit 0 1])))"
proof -
  have l: "length plain_example = 20"
    by (simp add: plain_example_def)
  have m: "plain_example ! 18 \<noteq> 0xA7"
    by (simp add: plain_example_def)
  have b: "buf (notifyCallback plain_example) = plain_example"
    using l m by (simp add: buf_notifyCallback decryptData_plain)
  have f: "unat (buf (notifyCallback plain_example) ! 16 div 16) = 4"
    unfolding b by (simp add: plain_example_def)
  have s: "take 16 plain_example = solution"
    by (simp add: plain_example_def solution_def)
  have f1: "1 \<le> unat (buf (notifyCallback plain_example) ! 16 div 16)"
    and f6: "unat (buf (notifyCallback plain_example) ! 16 div 16) \<le> 6"
    using f by simp_all
  note t = C3_solved_detection [OF l f1 f6]
  have r: "DigitalWrite relayPin HIGH \<in> set (trace (notifyCallback plain_example))"
    using t s m by blast
  have "(0::nat) < 16" "(0::nat) < 8"
    by simp_all
  then have "DigitalWrite relayPin HIGH
     \<notin> set (trace (notifyCallback (plain_example[0 := plain_example ! 0 XOR push_bit 0 1])))"
    using t r by blast
  then show ?thesis
    using l f s m r by blast
qed

text \<open>
  C6. Counterexample to the claim as stated: the plain solved payload quoted in the
  source with one more byte (21 bytes), and the same payload cut to 19 bytes. Both are
  decoded in full: piece state, move and relay pulse.
\<close>

theorem C6_length_guard_counterexample:
  "length (plain_example @ [0x00]) = 21 \<and>
   notifyCallback (plain_example @ [0x00]) =
     \<lparr>buf = plain_example @ [0x00],
      trace =
        [Print ''Current State: '',
         PrintHex 0x12, Print '' '', PrintHex 0x34, Print '' '', PrintHex 0x56, Print '' '',
         PrintHex 0x78, Print '' '', PrintHex 0x33, Print '' '', PrintHex 0x33, Print '' '',
         PrintHex 0x33, Print '' '', PrintHex 0x33, Print '' '', PrintHex 0x12, Print '' '',
         PrintHex 0x34, Print '' '', PrintHex 0x56, Print '' '', PrintHex 0x78, Print '' '',
         PrintHex 0x9A, Print '' '', PrintHex 0xBC, Print '' '', PrintHex 0x00, Print '' '',
         PrintHex 0x00, Print '' '', Println '''',
         Print ''Last Move: '', Print ''Top'', Print '' Face Clockwise'',
         Println '''', Println ''----'',
         DigitalWrite 33 HIGH, Delay 100, DigitalWrite 33 LOW],
      halt = None\<rparr> \<and>
   length (take 19 plain_example) = 19 \<and>
   notifyCallback (take 19 plain_example) =
     \<lparr>buf = take 19 plain_example,
      trace =
        [Print ''Current State: '',
         PrintHex 0x12, Print '' '', PrintHex 0x34, Print '' '', PrintHex 0x56, Print '' '',
         PrintHex 0x78, Print '' '', PrintHex 0x33, Print '' '', PrintHex 0x33, Print '' '',
         PrintHex 0x33, Print '' '', PrintHex 0x33, Print '' '', PrintHex 0x12, Print '' '',
         PrintHex 0x34, Print '' '', PrintHex 0x56, Print '' '', PrintHex 0x78, Print '' '',
         PrintHex 0x9A, Print '' '', PrintHex 0xBC, Print '' '', PrintHex 0x00, Print '' '',
         PrintHex 0x00, Print '' '', Println '''',
         Print ''Last Move: '', Print ''Top'', Print '' Face Clockwise'',
         Println '''', Println ''----'',
         DigitalWrite 33 HIGH, Delay 100, DigitalWrite 33 LOW],
      halt = None\<rparr>"
  by code_simp

text \<open>
  C6, as amended. The callback never looks at the length it is given and has no result
  for a wrong length. An input of 20 bytes or more is decoded exactly as its first 20
  bytes alone are: the same effects and the same outcome, with the bytes from offset 20
  on neither read nor changed, and no byte beyond the supplied length is read.
\<close>

theorem C6_no_length_guard:
  assumes "20 \<le> length p"
  shows "notifyCallback p =
           (notifyCallback (take 20 p))\<lparr>buf := buf (notifyCallback (take 20 p)) @ drop 20 p\<rparr> \<and>
         (\<forall>i. halt (notifyCallback p) \<noteq> Some (BufferOverrun i))"
proof -
  have "length (take 20 p) = 20"
    using assms by simp
  then have "notifyCallback (take 20 p @ drop 20 p) =
           (notifyCallback (take 20 p))\<lparr>buf := buf (notifyCallback (take 20 p)) @ drop 20 p\<rparr>"
    by (rule notifyCallback_append)
  moreover have "halt (notifyCallback p) \<noteq> Some (BufferOverrun i)" for i
    using assms by (simp add: halt_notifyCallback)
  ultimately show ?thesis
    by simp
qed

theorem C6_no_length_guard_witness:
  "(20::nat) \<le> length (plain_example @ [0x00]) \<and>
   notifyCallback (plain_example @ [0x00]) =
     (notifyCallback plain_example)\<lparr>buf := buf (notifyCallback plain_example) @ [0x00]\<rparr> \<and>
   (\<forall>i. halt (notifyCallback (plain_example @ [0x00])) \<noteq> Some (BufferOverrun i))"
proof -
  have l: "length plain_example = 20"
    by (simp add: plain_example_def)
  then have h: "20 \<le> length (plain_example @ [0x00])"
    by simp
  have t: "notifyCallback (plain_example @ [0x00]) =
     (notifyCallback plain_example)\<lparr>buf := buf (notifyCallback plain_example) @ [0x00]\<rparr>"
    using C6_no_length_guard [OF h] l by simp
  have u: "\<forall>i. halt (notifyCallback (plain_example @ [0x00])) \<noteq> Some (BufferOverrun i)"
    using C6_no_length_guard [OF h] by (rule conjunct2)
  show ?thesis
    using h t u by blast
qed

text \<open>
  C7. The code at the failing inputs: a plain 20-byte payload whose byte 16 is \<open>0x01\<close>
  (face nibble 0) or \<open>0x71\<close> (face nibble 7). The piece state is printed, then the
  callback indexes \<open>faceNames\<close> at \<open>-1\<close>, respectively at 6, outside its six entries.
\<close>

theorem C7_face_index_out_of_range:
  "notifyCallback (solution @ [0x01, 0x00, 0x00, 0x00]) =
     \<lparr>buf = solution @ [0x01, 0x00, 0x00, 0x00],
      trace =
        [Print ''Current State: '',
         PrintHex 0x12, Print '' '', PrintHex 0x34, Print '' '', PrintHex 0x56, Print '' '',
         PrintHex 0x78, Print '' '', PrintHex 0x33, Print '' '', PrintHex 0x33, Print '' '',
         PrintHex 0x33, Print '' '', PrintHex 0x33, Print '' '', PrintHex 0x12, Print '' '',
         PrintHex 0x34, Print '' '', PrintHex 0x56, Print '' '', PrintHex 0x78, Print '' '',
         PrintHex 0x9A, Print '' '', PrintHex 0xBC, Print '' '', PrintHex 0x00, Print '' '',
         PrintHex 0x00, Print '' '', Println '''',
         Print ''Last Move: ''],
      halt = Some (FaceNameOverrun (- 1))\<rparr> \<and>
   halt (notifyCallback (solution @ [0x71, 0x00, 0x00, 0x00])) = Some (FaceNameOverrun 6) \<and>
   length faceNames = 6"
  by code_simp

end
